theory Spec2Isabelle
  imports Main "HOL-Library.Word"
begin

section \<open>Values, errors and generators\<close>

type_synonym byte = "8 word"
type_synonym bytes = "byte list"

text \<open>The two exceptions the streaming helpers can raise: \<open>errors.APIError\<close> (from
  \<open>_raise_for_status\<close>) and \<open>struct.error\<close> (from \<open>struct.unpack\<close>).\<close>

datatype error = APIError | StructError

text \<open>A value handed to the caller is either text (\<open>response.text\<close>, decoded lines) or raw
  bytes (\<open>response.content\<close>, data read from \<open>response.raw\<close>).\<close>

datatype pyval = Text string | Bytes bytes

text \<open>The complete run of a Python generator: the elements it yields, in order, ended either by
  a normal return (\<open>Stop\<close>) or by an exception (\<open>Raise\<close>).\<close>

datatype 'a gen = Stop | Raise error | Yield 'a "'a gen"

fun yields :: "'a list \<Rightarrow> 'a gen \<Rightarrow> 'a gen" where
  "yields [] g = g"
| "yields (x # xs) g = Yield x (yields xs g)"

text \<open>The list comprehension \<open>[x for x in g]\<close>: an exception raised by the generator escapes
  the comprehension.\<close>

fun collect :: "'a gen \<Rightarrow> error + 'a list" where
  "collect Stop = Inr []"
| "collect (Raise e) = Inl e"
| "collect (Yield x g) = (case collect g of Inl e \<Rightarrow> Inl e | Inr xs \<Rightarrow> Inr (x # xs))"

text \<open>\<open>sep.join([x for x in g])\<close> with the empty separator.\<close>

definition join :: "'a list gen \<Rightarrow> error + 'a list" where
  "join g = (case collect g of Inl e \<Rightarrow> Inl e | Inr xs \<Rightarrow> Inr (concat xs))"

section \<open>The transport\<close>

text \<open>The connection under a response. \<open>response.raw\<close> and the socket returned by
  \<open>_get_raw_response_socket\<close> are two handles on the same connection, so one record holds the
  state of both: the unread rest of the transfer chunk being read (\<open>reader._fp.chunk_left\<close> is
  its length), the chunks the peer still delivers, whether the reader is closed, the socket's read
  timeout (\<open>None\<close> is Python's \<open>settimeout(None)\<close>: no timeout), and the calls made on the
  connection so far, oldest first. A call is \<open>settimeout(v)\<close>, a read of \<open>n\<close> bytes by one of
  the helpers, or the library reading the rest of the body to materialize it, in as many reads
  as that takes.\<close>

datatype call = SetTimeout "nat option" | Read nat | ReadBody

fun is_settimeout :: "call \<Rightarrow> bool" where
  "is_settimeout (SetTimeout v) = True"
| "is_settimeout (Read n) = False"
| "is_settimeout ReadBody = False"

record transport =
  current :: bytes
  pending :: "bytes list"
  closed :: bool
  timeout :: "nat option"
  calls :: "call list"

text \<open>The bytes a reader will still hand out: none once it is closed.\<close>

definition stream_bytes :: "transport \<Rightarrow> bytes" where
  "stream_bytes t = (if closed t then [] else current t @ concat (pending t))"

definition chunk_left :: "transport \<Rightarrow> nat" where
  "chunk_left t = length (current t)"

definition settimeout :: "nat option \<Rightarrow> transport \<Rightarrow> transport" where
  "settimeout v t = t\<lparr>timeout := v, calls := calls t @ [SetTimeout v]\<rparr>"

text \<open>A blocking read of \<open>n\<close> bytes (\<open>response.raw.read(n)\<close>): it returns once \<open>n\<close>
  bytes have arrived, whatever the chunk boundaries, or with what there is when the peer has
  nothing left to deliver; the reader is closed from then on, and a closed reader returns the
  empty string.\<close>

fun take_stream :: "nat \<Rightarrow> bytes \<Rightarrow> bytes list \<Rightarrow> bytes \<times> bytes \<times> bytes list" where
  "take_stream n cur [] = (take n cur, drop n cur, [])"
| "take_stream n cur (p # ps) =
     (if n \<le> length cur then (take n cur, drop n cur, p # ps)
      else (case take_stream (n - length cur) p ps of
              (d, cur', ps') \<Rightarrow> (cur @ d, cur', ps')))"

definition raw_read :: "nat \<Rightarrow> transport \<Rightarrow> bytes \<times> transport" where
  "raw_read n t =
     (if closed t then ([], t\<lparr>calls := calls t @ [Read n]\<rparr>)
      else (case take_stream n (current t) (pending t) of
              (d, cur, ps) \<Rightarrow>
                (d, t\<lparr>current := cur, pending := ps,
                      closed := (length d < n),
                      calls := calls t @ [Read n]\<rparr>)))"

text \<open>Materializing the body (\<open>response.content\<close>, and \<open>response.text\<close> through it): the
  library reads what the connection still delivers and the reader ends up closed. On a reader
  that is closed already, as after a request made without \<open>stream=True\<close>, nothing is left to
  read.\<close>

definition read_body :: "transport \<Rightarrow> transport" where
  "read_body t =
     (if closed t then t
      else t\<lparr>current := [], pending := [], closed := True, calls := calls t @ [ReadBody]\<rparr>)"

section \<open>Responses\<close>

text \<open>What the helpers observe of a \<open>requests\<close> response: whether \<open>raise_for_status()\<close>
  raises, whether the body is chunked-transfer-encoded (\<open>response.raw._fp.chunked\<close>), the
  materialized body as bytes and as text, the lines \<open>iter_lines(chunk_size=1,
  decode_unicode=True)\<close> produces, and the connection. The record keeps the values of these
  attributes beside the connection; evaluating \<open>response.content\<close> or \<open>response.text\<close>
  reads the body from the connection, so the functions below hand back the connection as they
  leave it.\<close>

record response =
  http_error :: bool
  chunked :: bool
  content :: bytes
  text' :: string
  iter_lines :: "string list"
  raw :: transport

text \<open>\<open>_raise_for_status\<close>: when the status is an error it raises
  \<open>errors.APIError(e, response, explanation=None)\<close>. The class is defined in
  \<open>docker/errors.py\<close>, outside \<open>client.py\<close>; with no explanation given, its constructor takes
  the explanation from \<open>response.content\<close>, which materializes the body. A status that is not
  an error leaves the connection as it is.\<close>

definition raise_for_status :: "response \<Rightarrow> (error + unit) \<times> transport" where
  "raise_for_status response =
     (if http_error response then (Inl APIError, read_body (raw response))
      else (Inr (), raw response))"

text \<open>\<open>_result\<close> as the streaming helpers call it, never with \<open>json=True\<close>:
  \<open>_result(response)\<close> gives the body as text and \<open>_result(response, binary=True)\<close> gives
  it as bytes, both after the status check and both by materializing the body.\<close>

definition result_text :: "response \<Rightarrow> (error + string) \<times> transport" where
  "result_text response =
     (case raise_for_status response of
        (Inl e, t) \<Rightarrow> (Inl e, t)
      | (Inr _, t) \<Rightarrow> (Inr (text' response), read_body t))"

definition result_binary :: "response \<Rightarrow> (error + bytes) \<times> transport" where
  "result_binary response =
     (case raise_for_status response of
        (Inl e, t) \<Rightarrow> (Inl e, t)
      | (Inr _, t) \<Rightarrow> (Inr (content response), read_body t))"

text \<open>\<open>_get_raw_response_socket\<close>: the status check, then the socket under the response.\<close>

definition get_raw_response_socket :: "response \<Rightarrow> (error + transport) \<times> transport" where
  "get_raw_response_socket response =
     (case raise_for_status response of
        (Inl e, t) \<Rightarrow> (Inl e, t)
      | (Inr _, t) \<Rightarrow> (Inr t, t))"

section \<open>Facts about reading\<close>

lemma take_stream_spec:
  "take_stream n cur ps = (d, cur', ps') \<Longrightarrow>
     d = take n (cur @ concat ps) \<and> cur' @ concat ps' = drop n (cur @ concat ps)"
proof (induction ps arbitrary: n cur d cur' ps')
  case Nil
  then show ?case by auto
next
  case (Cons p ps)
  show ?case
  proof (cases "n \<le> length cur")
    case True
    with Cons.prems show ?thesis by auto
  next
    case False
    obtain d0 c0 ps0 where r: "take_stream (n - length cur) p ps = (d0, c0, ps0)"
      by (cases "take_stream (n - length cur) p ps") auto
    from Cons.IH[OF r] have ih: "d0 = take (n - length cur) (p @ concat ps)"
      "c0 @ concat ps0 = drop (n - length cur) (p @ concat ps)" by auto
    from Cons.prems False r have "d = cur @ d0" "cur' = c0" "ps' = ps0" by auto
    with ih False show ?thesis by auto
  qed
qed

lemma raw_read_spec:
  assumes "raw_read n t = (d, t')"
  shows "d = take n (stream_bytes t)"
    and "stream_bytes t' = drop n (stream_bytes t)"
    and "timeout t' = timeout t"
    and "calls t' = calls t @ [Read n]"
proof -
  have "d = take n (stream_bytes t) \<and> stream_bytes t' = drop n (stream_bytes t)"
  proof (cases "closed t")
    case True
    with assms show ?thesis by (auto simp: raw_read_def stream_bytes_def)
  next
    case False
    obtain d0 c0 ps0 where r: "take_stream n (current t) (pending t) = (d0, c0, ps0)"
      by (cases "take_stream n (current t) (pending t)") auto
    from assms r False have eq: "d = d0" "current t' = c0" "pending t' = ps0"
      "closed t' = (length d0 < n)"
      by (auto simp: raw_read_def)
    from take_stream_spec[OF r]
    have d0: "d0 = take n (current t @ concat (pending t))"
      and rest: "c0 @ concat ps0 = drop n (current t @ concat (pending t))" by simp_all
    from d0 eq False have 1: "d = take n (stream_bytes t)" by (simp add: stream_bytes_def)
    have 2: "stream_bytes t' = drop n (stream_bytes t)"
    proof (cases "length d0 < n")
      case True
      with d0 have "drop n (current t @ concat (pending t)) = []" by auto
      with True eq False show ?thesis by (simp add: stream_bytes_def)
    next
      case False
      with eq rest \<open>\<not> closed t\<close> show ?thesis by (simp add: stream_bytes_def)
    qed
    from 1 2 show ?thesis by simp
  qed
  then show "d = take n (stream_bytes t)" "stream_bytes t' = drop n (stream_bytes t)"
    by simp_all
  show "timeout t' = timeout t" "calls t' = calls t @ [Read n]"
    using assms by (auto simp: raw_read_def split: if_splits prod.splits)
qed

lemma raw_read_shrinks:
  assumes "raw_read n t = (d, t')"
  shows "length (stream_bytes t') \<le> length (stream_bytes t)"
    and "d \<noteq> [] \<Longrightarrow> length (stream_bytes t') < length (stream_bytes t)"
proof -
  from raw_read_spec(1,2)[OF assms]
  have d: "d = take n (stream_bytes t)" and s: "stream_bytes t' = drop n (stream_bytes t)" .
  from s show "length (stream_bytes t') \<le> length (stream_bytes t)" by simp
  assume "d \<noteq> []"
  with d have "0 < n" "stream_bytes t \<noteq> []" by auto
  with s show "length (stream_bytes t') < length (stream_bytes t)" by simp
qed

lemma stream_bytes_settimeout: "stream_bytes (settimeout v t) = stream_bytes t"
  by (simp add: settimeout_def stream_bytes_def)

lemma read_shrinks_sym:
  "(d, t') = raw_read n t \<Longrightarrow> d \<noteq> [] \<Longrightarrow>
     length (stream_bytes t') < length (stream_bytes t)"
  using raw_read_shrinks(2)[of n t d t'] by simp

lemma read_then_read_shrinks:
  "(d, t') = raw_read n t \<Longrightarrow> d \<noteq> [] \<Longrightarrow> raw_read m t' = (d2, t2) \<Longrightarrow>
     length (stream_bytes t2) < length (stream_bytes t)"
  using raw_read_shrinks(2)[of n t d t'] raw_read_shrinks(1)[of m t' d2 t2] by simp

section \<open>The chunked raw reader\<close>

text \<open>The \<open>while not reader.closed\<close> loop of \<open>_stream_helper\<close>, with the reader's final
  state.\<close>

function stream_helper_loop :: "transport \<Rightarrow> pyval gen \<times> transport" where
  "stream_helper_loop reader =
     (if closed reader then (Stop, reader)
      else (case raw_read 1 reader of
              (data, reader1) \<Rightarrow>
                if data = [] then (Stop, reader1)
                else (case (if chunk_left reader1 \<noteq> 0
                            then (case raw_read (chunk_left reader1) reader1 of
                                    (rest, reader2) \<Rightarrow> (data @ rest, reader2))
                            else (data, reader1)) of
                        (data', reader2) \<Rightarrow>
                          (case stream_helper_loop reader2 of
                             (g, reader3) \<Rightarrow> (Yield (Bytes data') g, reader3)))))"
  by pat_completeness auto
termination
  apply (relation "measure (\<lambda>t. length (stream_bytes t))")
   apply simp
  apply (auto split: if_splits prod.splits)
  subgoal by (metis read_then_read_shrinks)
  subgoal by (metis read_shrinks_sym prod.inject)
  done

definition stream_helper :: "response \<Rightarrow> pyval gen \<times> transport" where
  "stream_helper response =
     (if chunked response then stream_helper_loop (raw response)
      else (case result_text response of
              (Inl e, t) \<Rightarrow> (Raise e, t)
            | (Inr s, t) \<Rightarrow> (Yield (Text s) Stop, t)))"

section \<open>Frame headers\<close>

definition STREAM_HEADER_SIZE_BYTES :: nat where
  "STREAM_HEADER_SIZE_BYTES = 8"

text \<open>Big-endian unsigned value of a byte string.\<close>

definition be_uint :: "bytes \<Rightarrow> nat" where
  "be_uint bs = foldl (\<lambda>acc b. acc * 256 + unat b) 0 bs"

text \<open>\<open>struct.unpack_from('>BxxxL', b)\<close> needs at least 8 bytes and \<open>struct.unpack('>BxxxL',
  b)\<close> exactly 8, and both raise \<open>struct.error\<close> otherwise. The result is the first byte and
  the unsigned value of bytes 4 to 7, most significant first; bytes 1 to 3 are padding.\<close>

definition unpack_from_BxxxL :: "bytes \<Rightarrow> error + (byte \<times> nat)" where
  "unpack_from_BxxxL b =
     (if length b < 8 then Inl StructError
      else Inr (hd b, be_uint (take 4 (drop 4 b))))"

definition unpack_BxxxL :: "bytes \<Rightarrow> error + (byte \<times> nat)" where
  "unpack_BxxxL b =
     (if length b \<noteq> 8 then Inl StructError
      else Inr (hd b, be_uint (take 4 (drop 4 b))))"

text \<open>The slice \<open>xs[start:end]\<close> for \<open>0 \<le> start \<le> end\<close>: it is clipped to the list.\<close>

definition pyslice :: "'a list \<Rightarrow> nat \<Rightarrow> nat \<Rightarrow> 'a list" where
  "pyslice xs start end = take (end - start) (drop start xs)"

section \<open>The buffered demultiplexer\<close>

text \<open>The \<open>while True\<close> loop of \<open>_multiplexed_buffer_helper\<close> over the buffer, from the
  cursor \<open>walker\<close>. The cursor starts at 0 and only grows, so it is a natural number.\<close>

function multiplexed_buffer_loop :: "bytes \<Rightarrow> nat \<Rightarrow> bytes gen" where
  "multiplexed_buffer_loop buf walker =
     (if length (drop walker buf) < 8 then Stop
      else (case unpack_from_BxxxL (drop walker buf) of
              Inl e \<Rightarrow> Raise e
            | Inr (_, len) \<Rightarrow>
                (let start = walker + STREAM_HEADER_SIZE_BYTES;
                     end = start + len
                 in Yield (pyslice buf start end) (multiplexed_buffer_loop buf end))))"
  by pat_completeness auto
termination
  by (relation "measure (\<lambda>(buf, walker). length buf - walker)")
     (auto simp: STREAM_HEADER_SIZE_BYTES_def)

definition multiplexed_buffer_helper :: "response \<Rightarrow> bytes gen" where
  "multiplexed_buffer_helper response =
     (case fst (result_binary response) of
        Inl e \<Rightarrow> Raise e
      | Inr buf \<Rightarrow> multiplexed_buffer_loop buf 0)"

text \<open>The same loop with a bound on the number of iterations: every pass through the loop
  body, the last one included, uses one unit of fuel.\<close>

fun multiplexed_buffer_fuel :: "nat \<Rightarrow> bytes \<Rightarrow> nat \<Rightarrow> bytes gen option" where
  "multiplexed_buffer_fuel 0 buf walker = None"
| "multiplexed_buffer_fuel (Suc n) buf walker =
     (if length (drop walker buf) < 8 then Some Stop
      else (case unpack_from_BxxxL (drop walker buf) of
              Inl e \<Rightarrow> Some (Raise e)
            | Inr (_, len) \<Rightarrow>
                (let start = walker + STREAM_HEADER_SIZE_BYTES;
                     end = start + len
                 in map_option (Yield (pyslice buf start end))
                      (multiplexed_buffer_fuel n buf end))))"

section \<open>The live demultiplexer\<close>

text \<open>The \<open>while True\<close> loop of \<open>_multiplexed_response_stream_helper\<close>, reading from
  \<open>response.raw\<close>, with the connection's final state.\<close>

function multiplexed_response_stream_loop :: "transport \<Rightarrow> bytes gen \<times> transport" where
  "multiplexed_response_stream_loop t =
     (case raw_read STREAM_HEADER_SIZE_BYTES t of
        (header, t1) \<Rightarrow>
          if header = [] then (Stop, t1)
          else (case unpack_BxxxL header of
                  Inl e \<Rightarrow> (Raise e, t1)
                | Inr (_, len) \<Rightarrow>
                    if len = 0 then (Stop, t1)
                    else (case raw_read len t1 of
                            (data, t2) \<Rightarrow>
                              if data = [] then (Stop, t2)
                              else (case multiplexed_response_stream_loop t2 of
                                      (g, t3) \<Rightarrow> (Yield data g, t3)))))"
  by pat_completeness auto
termination
  apply (relation "measure (\<lambda>t. length (stream_bytes t))")
   apply simp
  apply auto
  subgoal by (metis read_then_read_shrinks)
  done

text \<open>The timeout is disabled on the socket under the response before the loop starts. The two
  branches on \<open>six.PY3\<close> reach the same socket through different attributes.\<close>

definition multiplexed_response_stream_helper :: "response \<Rightarrow> bytes gen \<times> transport" where
  "multiplexed_response_stream_helper response =
     (case get_raw_response_socket response of
        (Inl e, t) \<Rightarrow> (Raise e, t)
      | (Inr socket, t) \<Rightarrow> multiplexed_response_stream_loop (settimeout None socket))"

section \<open>Attach\<close>

text \<open>Modelled from the spec: \<open>utils.compare_version\<close> is defined in \<open>docker/utils\<close>,
  outside \<open>client.py\<close>. A protocol version is a dotted version and comparisons are numeric per
  component; here a version is the list of its components, and a missing component counts as 0.
  The sign is the one the callers in \<open>client.py\<close> rely on (\<open>compare_version('1.15', v) < 0\<close>
  guards the message \<open>Exec is not supported in API < 1.15\<close>): negative when the second
  version is the older one, positive when it is the newer one, 0 when they are equal.\<close>

fun compare_version :: "nat list \<Rightarrow> nat list \<Rightarrow> int" where
  "compare_version [] [] = 0"
| "compare_version [] (b # bs) = (if b = 0 then compare_version [] bs else 1)"
| "compare_version (a # as) [] = (if a = 0 then compare_version as [] else - 1)"
| "compare_version (a # as) (b # bs) =
     (if a < b then 1 else if b < a then - 1 else compare_version as bs)"

text \<open>The inner generator \<open>stream_result\<close> of \<open>attach\<close>: the status check, then the lines of
  the response without the empty keep-alive lines.\<close>

definition stream_result :: "response \<Rightarrow> string gen" where
  "stream_result response =
     (case fst (raise_for_status response) of
        Inl e \<Rightarrow> Raise e
      | Inr _ \<Rightarrow> yields (filter (\<lambda>line. line \<noteq> []) (iter_lines response)) Stop)"

text \<open>What \<open>attach\<close> hands back: a value (or the exception raised while computing it), or a
  generator, given here by its complete run.\<close>

datatype attach_result = Returned "error + pyval" | Generator "pyval gen"

text \<open>\<open>attach\<close> from the point where the response has arrived; \<open>version\<close> is
  \<open>self._version\<close>.\<close>

definition attach :: "nat list \<Rightarrow> bool \<Rightarrow> response \<Rightarrow> attach_result" where
  "attach version stream response =
     (if compare_version [1, 6] version < 0
      then (if stream then Generator (map_gen Text (stream_result response))
            else Returned (map_sum id Bytes (fst (result_binary response))))
      else (if stream
            then Generator (map_gen Bytes (fst (multiplexed_response_stream_helper response)))
            else Returned (map_sum id Bytes (join (multiplexed_buffer_helper response)))))"

section \<open>The wire format\<close>

text \<open>A frame on the wire: one byte of channel tag, three reserved bytes, the payload length as
  a 4-byte big-endian unsigned number, then the payload.\<close>

record frame =
  stream_type :: byte
  reserved :: "byte \<times> byte \<times> byte"
  payload :: bytes

definition encode_u32 :: "nat \<Rightarrow> bytes" where
  "encode_u32 n = [of_nat (n div 16777216), of_nat (n div 65536), of_nat (n div 256), of_nat n]"

definition frame_header :: "frame \<Rightarrow> bytes" where
  "frame_header f =
     (case reserved f of
        (r1, r2, r3) \<Rightarrow> [stream_type f, r1, r2, r3] @ encode_u32 (length (payload f)))"

definition encode_frame :: "frame \<Rightarrow> bytes" where
  "encode_frame f = frame_header f @ payload f"

definition encode_frames :: "frame list \<Rightarrow> bytes" where
  "encode_frames fs = concat (map encode_frame fs)"

text \<open>A payload fits a frame when its length fits the 32-bit length field.\<close>

definition valid_frame :: "frame \<Rightarrow> bool" where
  "valid_frame f = (length (payload f) < 4294967296)"

section \<open>Decoding an encoded header\<close>

lemma be_uint_encode_u32: "n < 4294967296 \<Longrightarrow> be_uint (encode_u32 n) = n"
proof -
  assume "n < 4294967296"
  have a: "n div 65536 = n div 256 div 256" by (simp add: div_mult2_eq)
  have b: "n div 16777216 = n div 256 div 256 div 256" by (simp add: div_mult2_eq)
  have c: "n div 256 div 256 div 256 < 256" using \<open>n < 4294967296\<close> by simp
  have "be_uint (encode_u32 n) =
     ((n div 16777216 mod 256 * 256 + n div 65536 mod 256) * 256 + n div 256 mod 256) * 256 +
     n mod 256"
    by (simp add: be_uint_def encode_u32_def unat_of_nat take_bit_eq_mod)
  also have "\<dots> = n" unfolding a b using c
    by (simp add: mult.commute)
  finally show ?thesis .
qed

lemma length_frame_header: "length (frame_header f) = 8"
  by (simp add: frame_header_def encode_u32_def split: prod.splits)

lemma length_encode_frame: "length (encode_frame f) = 8 + length (payload f)"
  by (simp add: encode_frame_def length_frame_header)

lemma unpack_frame_header:
  assumes "valid_frame f"
  shows "hd (frame_header f @ xs) = stream_type f"
    and "be_uint (take 4 (drop 4 (frame_header f @ xs))) = length (payload f)"
proof -
  obtain r1 r2 r3 where r: "reserved f = (r1, r2, r3)" by (cases "reserved f") auto
  show "hd (frame_header f @ xs) = stream_type f" by (simp add: frame_header_def r)
  have "take 4 (drop 4 (frame_header f @ xs)) = encode_u32 (length (payload f))"
    by (simp add: frame_header_def r encode_u32_def)
  with assms show "be_uint (take 4 (drop 4 (frame_header f @ xs))) = length (payload f)"
    by (simp add: valid_frame_def be_uint_encode_u32)
qed

lemma unpack_from_encode_frame:
  assumes "valid_frame f"
  shows "unpack_from_BxxxL (encode_frame f @ rest) = Inr (stream_type f, length (payload f))"
proof -
  have "\<not> length (encode_frame f @ rest) < 8" by (simp add: length_encode_frame)
  with unpack_frame_header[OF assms, of "payload f @ rest"] show ?thesis
    unfolding unpack_from_BxxxL_def encode_frame_def by (simp only: append_assoc if_False)
qed

lemma unpack_frame_header_exact:
  assumes "valid_frame f"
  shows "unpack_BxxxL (frame_header f) = Inr (stream_type f, length (payload f))"
proof -
  have "\<not> length (frame_header f) \<noteq> 8" by (simp add: length_frame_header)
  with unpack_frame_header[OF assms, of "[]"] show ?thesis
    unfolding unpack_BxxxL_def by (simp only: append_Nil2 if_False)
qed

section \<open>The buffered demultiplexer on encoded frames\<close>

declare multiplexed_buffer_loop.simps [simp del]

lemma buffer_loop_frame:
  assumes "valid_frame f"
  shows "multiplexed_buffer_loop (pre @ encode_frame f @ rest) (length pre) =
         Yield (payload f)
           (multiplexed_buffer_loop (pre @ encode_frame f @ rest)
              (length pre + length (encode_frame f)))"
proof -
  have s: "pyslice (pre @ encode_frame f @ rest) (length pre + 8)
             (length pre + (8 + length (payload f))) = payload f"
    by (simp add: pyslice_def encode_frame_def length_frame_header)
  show ?thesis
    by (subst multiplexed_buffer_loop.simps)
       (simp add: unpack_from_encode_frame[OF assms] length_encode_frame
          STREAM_HEADER_SIZE_BYTES_def s add.assoc Let_def)
qed

lemma buffer_loop_frames:
  "list_all valid_frame fs \<Longrightarrow>
     multiplexed_buffer_loop (pre @ encode_frames fs @ rest) (length pre) =
     yields (map payload fs)
       (multiplexed_buffer_loop (pre @ encode_frames fs @ rest)
          (length pre + length (encode_frames fs)))"
proof (induction fs arbitrary: pre)
  case Nil
  then show ?case by (simp add: encode_frames_def)
next
  case (Cons f fs)
  from Cons.prems have vf: "valid_frame f" and vfs: "list_all valid_frame fs" by simp_all
  have e: "encode_frames (f # fs) = encode_frame f @ encode_frames fs"
    by (simp add: encode_frames_def)
  from buffer_loop_frame[OF vf, of pre "encode_frames fs @ rest"]
       Cons.IH[OF vfs, of "pre @ encode_frame f"]
  show ?case by (simp add: e add.assoc)
qed

lemma buffer_loop_short_tail:
  "length tail < 8 \<Longrightarrow> multiplexed_buffer_loop (pre @ tail) (length pre) = Stop"
  by (subst multiplexed_buffer_loop.simps) simp

lemma buffer_loop_past_end:
  "length buf \<le> walker \<Longrightarrow> multiplexed_buffer_loop buf walker = Stop"
  by (subst multiplexed_buffer_loop.simps) simp

lemma collect_yields: "collect (yields xs Stop) = Inr xs"
  by (induction xs) simp_all

lemma buffer_loop_encoded:
  assumes "list_all valid_frame fs"
  shows "multiplexed_buffer_loop (encode_frames fs) 0 = yields (map payload fs) Stop"
  using buffer_loop_frames[OF assms, of "[]" "[]"]
    buffer_loop_short_tail[of "[]" "encode_frames fs"]
  by simp

lemma yields_append: "yields (xs @ ys) g = yields xs (yields ys g)"
  by (induction xs) simp_all

lemma buffer_loop_partial_payload:
  assumes "length hdr = 8" and "length part < be_uint (take 4 (drop 4 hdr))"
  shows "multiplexed_buffer_loop (pre @ hdr @ part) (length pre) = Yield part Stop"
proof -
  define len where "len = be_uint (take 4 (drop 4 hdr))"
  from assms(2) have lt: "length part < len" by (simp add: len_def)
  let ?buf = "pre @ hdr @ part"
  have u: "unpack_from_BxxxL (hdr @ part) = Inr (hd (hdr @ part), len)"
    using assms(1) by (simp add: unpack_from_BxxxL_def len_def)
  have s: "pyslice ?buf (length pre + 8) (length pre + 8 + len) = part"
    using assms(1) lt by (simp add: pyslice_def)
  have e: "multiplexed_buffer_loop ?buf (length pre + 8 + len) = Stop"
    using assms(1) lt by (intro buffer_loop_past_end) simp
  show ?thesis
    using assms(1)
    by (subst multiplexed_buffer_loop.simps)
       (simp add: u s e STREAM_HEADER_SIZE_BYTES_def Let_def)
qed

lemma buffer_fuel_enough:
  "(length buf - walker) div 8 < n \<Longrightarrow>
     multiplexed_buffer_fuel n buf walker = Some (multiplexed_buffer_loop buf walker)"
proof (induction n arbitrary: walker)
  case 0
  then show ?case by simp
next
  case (Suc n)
  show ?case
  proof (cases "length (drop walker buf) < 8")
    case True
    then show ?thesis by (subst multiplexed_buffer_loop.simps) simp
  next
    case False
    let ?len = "be_uint (take 4 (drop 4 (drop walker buf)))"
    have u: "unpack_from_BxxxL (drop walker buf) = Inr (hd (drop walker buf), ?len)"
      using False by (simp add: unpack_from_BxxxL_def)
    from False Suc.prems have "(length buf - (walker + 8 + ?len)) div 8 < n"
      by simp
    from Suc.IH[OF this] False show ?thesis
      by (subst multiplexed_buffer_loop.simps)
         (simp add: u STREAM_HEADER_SIZE_BYTES_def Let_def)
  qed
qed

section \<open>The live demultiplexer on encoded frames\<close>

declare multiplexed_response_stream_loop.simps [simp del]

lemma live_loop_step:
  assumes "raw_read STREAM_HEADER_SIZE_BYTES t = (h, t1)"
  shows "multiplexed_response_stream_loop t =
     (if h = [] then (Stop, t1)
      else (case unpack_BxxxL h of
              Inl e \<Rightarrow> (Raise e, t1)
            | Inr (a, len) \<Rightarrow>
                if len = 0 then (Stop, t1)
                else (case raw_read len t1 of
                        (d, t2) \<Rightarrow>
                          if d = [] then (Stop, t2)
                          else (Yield d (fst (multiplexed_response_stream_loop t2)),
                                snd (multiplexed_response_stream_loop t2)))))"
  by (subst multiplexed_response_stream_loop.simps)
     (simp add: assms split: prod.splits sum.splits)

lemma live_loop_cong:
  "stream_bytes t = stream_bytes t' \<Longrightarrow>
     fst (multiplexed_response_stream_loop t) = fst (multiplexed_response_stream_loop t') \<and>
     stream_bytes (snd (multiplexed_response_stream_loop t)) =
       stream_bytes (snd (multiplexed_response_stream_loop t'))"
proof (induction "length (stream_bytes t)" arbitrary: t t' rule: less_induct)
  case less
  obtain h t1 where r1: "raw_read STREAM_HEADER_SIZE_BYTES t = (h, t1)"
    by (cases "raw_read STREAM_HEADER_SIZE_BYTES t") auto
  obtain h' t1' where r1': "raw_read STREAM_HEADER_SIZE_BYTES t' = (h', t1')"
    by (cases "raw_read STREAM_HEADER_SIZE_BYTES t'") auto
  from raw_read_spec(1,2)[OF r1] raw_read_spec(1,2)[OF r1'] less.prems
  have hh: "h' = h" and s1: "stream_bytes t1 = stream_bytes t1'" by simp_all
  note step = live_loop_step[OF r1] live_loop_step[OF r1', unfolded hh]
  show ?case
  proof (cases "h = []")
    case True
    with step s1 show ?thesis by simp
  next
    case hne: False
    show ?thesis
    proof (cases "unpack_BxxxL h")
      case (Inl e)
      with step hne s1 show ?thesis by simp
    next
      case (Inr p)
      obtain a len where p: "p = (a, len)" by (cases p) auto
      show ?thesis
      proof (cases "len = 0")
        case True
        with step hne s1 Inr p show ?thesis by simp
      next
        case lne: False
        obtain d t2 where r2: "raw_read len t1 = (d, t2)"
          by (cases "raw_read len t1") auto
        obtain d' t2' where r2': "raw_read len t1' = (d', t2')"
          by (cases "raw_read len t1'") auto
        from raw_read_spec(1,2)[OF r2] raw_read_spec(1,2)[OF r2'] s1
        have dd: "d' = d" and s2: "stream_bytes t2 = stream_bytes t2'" by simp_all
        show ?thesis
        proof (cases "d = []")
          case True
          with step hne Inr p lne r2 r2' dd s2 show ?thesis by simp
        next
          case dne: False
          from raw_read_shrinks(2)[OF r1 hne] raw_read_shrinks(1)[OF r2]
          have "length (stream_bytes t2) < length (stream_bytes t)" by simp
          from less.hyps[OF this s2] step hne Inr p lne r2 r2' dd dne
          show ?thesis by simp
        qed
      qed
    qed
  qed
qed

lemma live_loop_eof:
  assumes "stream_bytes t = []"
  shows "fst (multiplexed_response_stream_loop t) = Stop"
    and "stream_bytes (snd (multiplexed_response_stream_loop t)) = []"
proof -
  obtain h t1 where r1: "raw_read STREAM_HEADER_SIZE_BYTES t = (h, t1)"
    by (cases "raw_read STREAM_HEADER_SIZE_BYTES t") auto
  from raw_read_spec(1,2)[OF r1] assms have "h = []" "stream_bytes t1 = []" by simp_all
  with live_loop_step[OF r1]
  show "fst (multiplexed_response_stream_loop t) = Stop"
    "stream_bytes (snd (multiplexed_response_stream_loop t)) = []" by simp_all
qed

lemma live_loop_zero_length:
  assumes "stream_bytes t = hdr @ rest" and "length hdr = 8"
    and "be_uint (take 4 (drop 4 hdr)) = 0"
  shows "fst (multiplexed_response_stream_loop t) = Stop"
    and "stream_bytes (snd (multiplexed_response_stream_loop t)) = rest"
proof -
  obtain h t1 where r1: "raw_read STREAM_HEADER_SIZE_BYTES t = (h, t1)"
    by (cases "raw_read STREAM_HEADER_SIZE_BYTES t") auto
  from raw_read_spec(1,2)[OF r1] assms(1,2)
  have h: "h = hdr" and s1: "stream_bytes t1 = rest"
    by (simp_all add: STREAM_HEADER_SIZE_BYTES_def)
  from assms(2,3) have u: "unpack_BxxxL hdr = Inr (hd hdr, 0)" "hdr \<noteq> []"
    by (auto simp: unpack_BxxxL_def)
  from live_loop_step[OF r1] h s1 u
  show "fst (multiplexed_response_stream_loop t) = Stop"
    "stream_bytes (snd (multiplexed_response_stream_loop t)) = rest" by simp_all
qed

lemma live_loop_frame:
  assumes "valid_frame f" and "payload f \<noteq> []"
    and "stream_bytes t = encode_frame f @ rest" and "stream_bytes tr = rest"
  shows "fst (multiplexed_response_stream_loop t) =
           Yield (payload f) (fst (multiplexed_response_stream_loop tr))"
    and "stream_bytes (snd (multiplexed_response_stream_loop t)) =
           stream_bytes (snd (multiplexed_response_stream_loop tr))"
proof -
  obtain h t1 where r1: "raw_read STREAM_HEADER_SIZE_BYTES t = (h, t1)"
    by (cases "raw_read STREAM_HEADER_SIZE_BYTES t") auto
  from raw_read_spec(1,2)[OF r1] assms(3)
  have h: "h = frame_header f" and s1: "stream_bytes t1 = payload f @ rest"
    by (simp_all add: STREAM_HEADER_SIZE_BYTES_def encode_frame_def length_frame_header)
  obtain d t2 where r2: "raw_read (length (payload f)) t1 = (d, t2)"
    by (cases "raw_read (length (payload f)) t1") auto
  from raw_read_spec(1,2)[OF r2] s1
  have d: "d = payload f" and s2: "stream_bytes t2 = rest" by simp_all
  have hne: "frame_header f \<noteq> []" using length_frame_header[of f] by auto
  from live_loop_step[OF r1] h hne unpack_frame_header_exact[OF assms(1)] assms(2) r2 d
  have "multiplexed_response_stream_loop t =
      (Yield (payload f) (fst (multiplexed_response_stream_loop t2)),
       snd (multiplexed_response_stream_loop t2))" by simp
  with live_loop_cong[of t2 tr] s2 assms(4)
  show "fst (multiplexed_response_stream_loop t) =
           Yield (payload f) (fst (multiplexed_response_stream_loop tr))"
    "stream_bytes (snd (multiplexed_response_stream_loop t)) =
           stream_bytes (snd (multiplexed_response_stream_loop tr))" by simp_all
qed

lemma live_loop_frames:
  assumes "list_all valid_frame fs" and "list_all (\<lambda>f. payload f \<noteq> []) fs"
    and "stream_bytes t = encode_frames fs @ rest" and "stream_bytes tr = rest"
  shows "fst (multiplexed_response_stream_loop t) =
           yields (map payload fs) (fst (multiplexed_response_stream_loop tr)) \<and>
         stream_bytes (snd (multiplexed_response_stream_loop t)) =
           stream_bytes (snd (multiplexed_response_stream_loop tr))"
  using assms
proof (induction fs arbitrary: t)
  case Nil
  then show ?case using live_loop_cong[of t tr] by (simp add: encode_frames_def)
next
  case (Cons f fs)
  let ?mid = "tr\<lparr>current := encode_frames fs @ rest, pending := [], closed := False\<rparr>"
  have m: "stream_bytes ?mid = encode_frames fs @ rest" by (simp add: stream_bytes_def)
  from Cons.prems have vf: "valid_frame f" "payload f \<noteq> []"
    and vfs: "list_all valid_frame fs" "list_all (\<lambda>f. payload f \<noteq> []) fs" by simp_all
  from Cons.prems(3) have "stream_bytes t = encode_frame f @ encode_frames fs @ rest"
    by (simp add: encode_frames_def)
  from live_loop_frame[OF vf this m] Cons.IH[OF vfs m Cons.prems(4)]
  show ?case by simp
qed

lemma live_loop_encoded:
  assumes "list_all valid_frame fs" and "stream_bytes t = encode_frames fs"
  shows "fst (multiplexed_response_stream_loop t) =
           yields (takeWhile (\<lambda>p. p \<noteq> []) (map payload fs)) Stop"
  using assms
proof (induction fs arbitrary: t)
  case Nil
  then show ?case using live_loop_eof(1)[of t] by (simp add: encode_frames_def)
next
  case (Cons f fs)
  from Cons.prems have vf: "valid_frame f" and vfs: "list_all valid_frame fs" by simp_all
  from Cons.prems(2) have s: "stream_bytes t = encode_frame f @ encode_frames fs"
    by (simp add: encode_frames_def)
  show ?case
  proof (cases "payload f = []")
    case True
    from s True have "stream_bytes t = frame_header f @ encode_frames fs"
      by (simp add: encode_frame_def)
    moreover from unpack_frame_header(2)[OF vf, of "[]"] True
    have "be_uint (take 4 (drop 4 (frame_header f))) = 0" by simp
    ultimately have "fst (multiplexed_response_stream_loop t) = Stop"
      by (intro live_loop_zero_length(1)[of t "frame_header f" "encode_frames fs"]
            length_frame_header)
    with True show ?thesis by simp
  next
    case False
    let ?mid = "t\<lparr>current := encode_frames fs, pending := [], closed := False\<rparr>"
    have m: "stream_bytes ?mid = encode_frames fs" by (simp add: stream_bytes_def)
    from live_loop_frame(1)[OF vf False s m] Cons.IH[OF vfs m] False
    show ?thesis by simp
  qed
qed

lemma live_loop_calls:
  "timeout (snd (multiplexed_response_stream_loop t)) = timeout t \<and>
   (\<exists>ns. calls (snd (multiplexed_response_stream_loop t)) = calls t @ Read 8 # map Read ns)"
proof (induction "length (stream_bytes t)" arbitrary: t rule: less_induct)
  case less
  obtain h t1 where r1: "raw_read STREAM_HEADER_SIZE_BYTES t = (h, t1)"
    by (cases "raw_read STREAM_HEADER_SIZE_BYTES t") auto
  from raw_read_spec(3,4)[OF r1]
  have c1: "timeout t1 = timeout t" "calls t1 = calls t @ Read 8 # map Read []"
    by (simp_all add: STREAM_HEADER_SIZE_BYTES_def)
  note step = live_loop_step[OF r1]
  show ?case
  proof (cases "h = []")
    case True
    with step c1 show ?thesis by auto
  next
    case hne: False
    show ?thesis
    proof (cases "unpack_BxxxL h")
      case (Inl e)
      with step hne c1 show ?thesis by auto
    next
      case (Inr p)
      obtain a len where p: "p = (a, len)" by (cases p) auto
      show ?thesis
      proof (cases "len = 0")
        case True
        with step hne c1 Inr p show ?thesis by auto
      next
        case lne: False
        obtain d t2 where r2: "raw_read len t1 = (d, t2)"
          by (cases "raw_read len t1") auto
        from raw_read_spec(3,4)[OF r2] c1
        have c2: "timeout t2 = timeout t" "calls t2 = calls t @ Read 8 # map Read [len]"
          by simp_all
        show ?thesis
        proof (cases "d = []")
          case True
          with step hne Inr p lne r2
          have "snd (multiplexed_response_stream_loop t) = t2" by simp
          with c2 have "timeout (snd (multiplexed_response_stream_loop t)) = timeout t"
            "calls (snd (multiplexed_response_stream_loop t)) =
               calls t @ Read 8 # map Read [len]" by simp_all
          then show ?thesis by blast
        next
          case dne: False
          from raw_read_shrinks(2)[OF r1 hne] raw_read_shrinks(1)[OF r2]
          have "length (stream_bytes t2) < length (stream_bytes t)" by simp
          from less.hyps[OF this] obtain ns where
            ih: "timeout (snd (multiplexed_response_stream_loop t2)) = timeout t2"
              "calls (snd (multiplexed_response_stream_loop t2)) =
                 calls t2 @ Read 8 # map Read ns"
            by auto
          from step hne Inr p lne r2 dne
          have "snd (multiplexed_response_stream_loop t) =
                snd (multiplexed_response_stream_loop t2)" by simp
          with ih c2 have "timeout (snd (multiplexed_response_stream_loop t)) = timeout t"
            "calls (snd (multiplexed_response_stream_loop t)) =
               calls t @ Read 8 # map Read (len # 8 # ns)" by simp_all
          then show ?thesis by blast
        qed
      qed
    qed
  qed
qed

lemma valid_frames_payloads:
  "list_all valid_frame fs = list_all (\<lambda>p. length p < 4294967296) (map payload fs)"
  by (induction fs) (simp_all add: valid_frame_def)

section \<open>Buffered demultiplexing returns the payloads\<close>

text \<open>C1. For every sequence of frames whose payloads fit the 32-bit length field, the buffered
  demultiplexer (the chunks of the buffer loop, joined as \<open>attach\<close> joins them) run on the
  concatenation of the frames' wire encodings returns, without raising, the concatenation of
  the payloads in order. A response whose body is that buffer gives the same result through
  \<open>_multiplexed_buffer_helper\<close>, once its status check has passed.\<close>

theorem buffered_concat_payloads:
  assumes "list_all valid_frame fs"
  shows "join (multiplexed_buffer_loop (encode_frames fs) 0) = Inr (concat (map payload fs)) \<and>
         join (multiplexed_buffer_helper (r\<lparr>content := encode_frames fs\<rparr>)) =
           (if http_error r then Inl APIError else Inr (concat (map payload fs)))"
proof -
  have j: "join (multiplexed_buffer_loop (encode_frames fs) 0) = Inr (concat (map payload fs))"
    using buffer_loop_encoded[OF assms] by (simp add: join_def collect_yields)
  then show ?thesis
    by (simp add: multiplexed_buffer_helper_def result_binary_def raise_for_status_def join_def)
qed

text \<open>The frames (tag 1, \<open>hello \<close>) and (tag 1, \<open>world\<close>) give \<open>hello world\<close>.\<close>

theorem buffered_concat_payloads_witness:
  "list_all valid_frame
     [\<lparr>stream_type = 1, reserved = (0, 0, 0), payload = [104, 101, 108, 108, 111, 32]\<rparr>,
      \<lparr>stream_type = 1, reserved = (0, 0, 0), payload = [119, 111, 114, 108, 100]\<rparr>] \<and>
   join (multiplexed_buffer_loop
     [1, 0, 0, 0, 0, 0, 0, 6, 104, 101, 108, 108, 111, 32,
      1, 0, 0, 0, 0, 0, 0, 5, 119, 111, 114, 108, 100] 0) =
   Inr [104, 101, 108, 108, 111, 32, 119, 111, 114, 108, 100]"
proof -
  let ?fs = "[\<lparr>stream_type = 1, reserved = (0, 0, 0),
                payload = [104, 101, 108, 108, 111, 32 :: byte]\<rparr>,
              \<lparr>stream_type = 1, reserved = (0, 0, 0),
                payload = [119, 111, 114, 108, 100 :: byte]\<rparr>]"
  have v: "list_all valid_frame ?fs" by (simp add: valid_frame_def)
  have e: "encode_frames ?fs =
     [1, 0, 0, 0, 0, 0, 0, 6, 104, 101, 108, 108, 111, 32,
      1, 0, 0, 0, 0, 0, 0, 5, 119, 111, 114, 108, 100]"
    by (simp add: encode_frames_def encode_frame_def frame_header_def encode_u32_def)
  from buffered_concat_payloads[OF v, THEN conjunct1] show ?thesis
    unfolding e using v by simp
qed

section \<open>Live and buffered demultiplexing agree\<close>

text \<open>C2. Take frames whose payloads fit the length field, none of them empty. If the
  connection of a response delivers the concatenated encoding of the frames, cut into chunks at
  any positions, and the materialized body of the response is that same encoding, then the live
  demultiplexer yields exactly the chunks the buffered demultiplexer yields, in the same order
  and with the same end; this holds for the two loops and for the two helpers.\<close>

theorem live_matches_buffered:
  assumes "list_all valid_frame fs" and "list_all (\<lambda>f. payload f \<noteq> []) fs"
    and "stream_bytes (raw r) = encode_frames fs" and "content r = encode_frames fs"
  shows "fst (multiplexed_response_stream_loop (raw r)) =
           multiplexed_buffer_loop (content r) 0 \<and>
         fst (multiplexed_response_stream_helper r) = multiplexed_buffer_helper r"
proof -
  from assms(2) have tw: "takeWhile (\<lambda>p. p \<noteq> []) (map payload fs) = map payload fs"
    by (induction fs) simp_all
  have b: "multiplexed_buffer_loop (content r) 0 = yields (map payload fs) Stop"
    using buffer_loop_encoded[OF assms(1)] assms(4) by simp
  have l: "fst (multiplexed_response_stream_loop t) = yields (map payload fs) Stop"
    if "stream_bytes t = encode_frames fs" for t
    using live_loop_encoded[OF assms(1) that] tw by simp
  have s: "stream_bytes (settimeout None (raw r)) = encode_frames fs"
    using assms(3) by (simp add: stream_bytes_settimeout)
  show ?thesis
    using b l[OF assms(3)] l[OF s]
    by (simp add: multiplexed_response_stream_helper_def multiplexed_buffer_helper_def
        get_raw_response_socket_def result_binary_def raise_for_status_def)
qed

text \<open>The frames (tag 1, \<open>ab\<close>) and (tag 2, \<open>c\<close>), delivered in four pieces that cut
  through both headers.\<close>

theorem live_matches_buffered_witness:
  "list_all valid_frame
     [\<lparr>stream_type = 1, reserved = (0, 0, 0), payload = [97, 98]\<rparr>,
      \<lparr>stream_type = 2, reserved = (0, 0, 0), payload = [99]\<rparr>] \<and>
   list_all (\<lambda>f. payload f \<noteq> [])
     [\<lparr>stream_type = 1, reserved = (0, 0, 0), payload = [97, 98 :: byte]\<rparr>,
      \<lparr>stream_type = 2, reserved = (0, 0, 0), payload = [99]\<rparr>] \<and>
   fst (multiplexed_response_stream_helper
     \<lparr>http_error = False, chunked = False,
      content = [1, 0, 0, 0, 0, 0, 0, 2, 97, 98, 2, 0, 0, 0, 0, 0, 0, 1, 99],
      text' = [], iter_lines = [],
      raw = \<lparr>current = [],
             pending = [[1, 0, 0], [0, 0, 0, 0, 2, 97], [98, 2, 0, 0, 0, 0, 0, 0, 1], [99]],
             closed = False, timeout = Some 60, calls = []\<rparr>\<rparr>) =
   multiplexed_buffer_helper
     \<lparr>http_error = False, chunked = False,
      content = [1, 0, 0, 0, 0, 0, 0, 2, 97, 98, 2, 0, 0, 0, 0, 0, 0, 1, 99],
      text' = [], iter_lines = [],
      raw = \<lparr>current = [],
             pending = [[1, 0, 0], [0, 0, 0, 0, 2, 97], [98, 2, 0, 0, 0, 0, 0, 0, 1], [99]],
             closed = False, timeout = Some 60, calls = []\<rparr>\<rparr> \<and>
   multiplexed_buffer_loop [1, 0, 0, 0, 0, 0, 0, 2, 97, 98, 2, 0, 0, 0, 0, 0, 0, 1, 99] 0 =
     Yield [97, 98] (Yield [99] Stop)"
proof -
  let ?fs = "[\<lparr>stream_type = 1, reserved = (0, 0, 0), payload = [97, 98 :: byte]\<rparr>,
      \<lparr>stream_type = 2, reserved = (0, 0, 0), payload = [99]\<rparr>]"
  let ?r = "\<lparr>http_error = False, chunked = False,
      content = [1, 0, 0, 0, 0, 0, 0, 2, 97, 98, 2, 0, 0, 0, 0, 0, 0, 1, 99],
      text' = [], iter_lines = [],
      raw = \<lparr>current = [],
             pending = [[1, 0, 0], [0, 0, 0, 0, 2, 97], [98, 2, 0, 0, 0, 0, 0, 0, 1], [99]],
             closed = False, timeout = Some 60, calls = []\<rparr>\<rparr>"
  have v: "list_all valid_frame ?fs" by (simp add: valid_frame_def)
  have n: "list_all (\<lambda>f. payload f \<noteq> []) ?fs" by simp
  have e: "encode_frames ?fs = [1, 0, 0, 0, 0, 0, 0, 2, 97, 98, 2, 0, 0, 0, 0, 0, 0, 1, 99]"
    by (simp add: encode_frames_def encode_frame_def frame_header_def encode_u32_def)
  have s: "stream_bytes (raw ?r) = encode_frames ?fs" unfolding e
    by (simp add: stream_bytes_def)
  have c: "content ?r = encode_frames ?fs" unfolding e by simp
  have b: "multiplexed_buffer_loop
      [1, 0, 0, 0, 0, 0, 0, 2, 97, 98, 2, 0, 0, 0, 0, 0, 0, 1, 99] 0 =
     Yield [97, 98] (Yield [99] Stop)"
    by code_simp
  from live_matches_buffered[OF v n s c, THEN conjunct2] v n b show ?thesis by simp
qed

section \<open>A zero-length frame ends the live sequence\<close>

text \<open>C3. Whatever the connection delivers after it, a header that declares length 0 ends the
  sequence of the live demultiplexer: after any valid frames with non-empty payloads, the
  sequence consists of their payloads and stops, and the bytes that follow the header are left
  unread on the connection. Every stream on which the loop comes to read such a header has this
  form, since each header read before it declared a non-zero length and was followed by that
  many payload bytes.\<close>

theorem live_stops_at_zero_length:
  assumes "list_all valid_frame pre" and "list_all (\<lambda>f. payload f \<noteq> []) pre"
    and "length hdr = 8" and "be_uint (take 4 (drop 4 hdr)) = 0"
    and "stream_bytes t = encode_frames pre @ hdr @ rest"
  shows "fst (multiplexed_response_stream_loop t) = yields (map payload pre) Stop \<and>
         stream_bytes (snd (multiplexed_response_stream_loop t)) = rest"
proof -
  let ?tr = "t\<lparr>current := hdr @ rest, pending := [], closed := False\<rparr>"
  have m: "stream_bytes ?tr = hdr @ rest" by (simp add: stream_bytes_def)
  from live_loop_frames[OF assms(1,2,5) m] live_loop_zero_length[OF m assms(3,4)]
  show ?thesis by simp
qed

text \<open>The frame (tag 1, \<open>ab\<close>), a header of length 0, then the frame (tag 1, \<open>c\<close>), which
  is never read.\<close>

theorem live_stops_at_zero_length_witness:
  "list_all valid_frame [\<lparr>stream_type = 1, reserved = (0, 0, 0), payload = [97, 98]\<rparr>] \<and>
   list_all (\<lambda>f. payload f \<noteq> [])
     [\<lparr>stream_type = 1, reserved = (0, 0, 0), payload = [97, 98 :: byte]\<rparr>] \<and>
   length [1, 0, 0, 0, 0, 0, 0, 0 :: byte] = 8 \<and>
   be_uint (take 4 (drop 4 [1, 0, 0, 0, 0, 0, 0, 0])) = 0 \<and>
   fst (multiplexed_response_stream_loop
     \<lparr>current = [],
      pending = [[1, 0, 0, 0, 0, 0, 0, 2, 97, 98], [1, 0, 0, 0, 0, 0, 0, 0],
                 [1, 0, 0, 0, 0, 0, 0, 1, 99]],
      closed = False, timeout = None, calls = []\<rparr>) = Yield [97, 98] Stop \<and>
   stream_bytes (snd (multiplexed_response_stream_loop
     \<lparr>current = [],
      pending = [[1, 0, 0, 0, 0, 0, 0, 2, 97, 98], [1, 0, 0, 0, 0, 0, 0, 0],
                 [1, 0, 0, 0, 0, 0, 0, 1, 99]],
      closed = False, timeout = None, calls = []\<rparr>)) = [1, 0, 0, 0, 0, 0, 0, 1, 99]"
proof -
  let ?pre = "[\<lparr>stream_type = 1, reserved = (0, 0, 0), payload = [97, 98 :: byte]\<rparr>]"
  let ?t = "\<lparr>current = [],
      pending = [[1, 0, 0, 0, 0, 0, 0, 2, 97, 98], [1, 0, 0, 0, 0, 0, 0, 0],
                 [1, 0, 0, 0, 0, 0, 0, 1, 99 :: byte]],
      closed = False, timeout = None, calls = []\<rparr>"
  have v: "list_all valid_frame ?pre" by (simp add: valid_frame_def)
  have n: "list_all (\<lambda>f. payload f \<noteq> []) ?pre" by simp
  have l: "length [1, 0, 0, 0, 0, 0, 0, 0 :: byte] = 8" by simp
  have z: "be_uint (take 4 (drop 4 [1, 0, 0, 0, 0, 0, 0, 0])) = 0" by (simp add: be_uint_def)
  have s: "stream_bytes ?t =
      encode_frames ?pre @ [1, 0, 0, 0, 0, 0, 0, 0] @ [1, 0, 0, 0, 0, 0, 0, 1, 99]"
    by (simp add: stream_bytes_def encode_frames_def encode_frame_def frame_header_def
        encode_u32_def)
  from live_stops_at_zero_length[OF v n l z s] v n l z show ?thesis by simp
qed

section \<open>Truncated input to the buffered demultiplexer\<close>

text \<open>C4. Let the buffer be the encoding of valid frames followed by a trailing fragment. If
  the fragment is a partial header (fewer than 8 bytes) the buffered demultiplexer yields the
  same chunks as without the fragment and returns the payloads of the frames. If the fragment
  is a full 8-byte header followed by fewer payload bytes than the header declares, it yields
  one more chunk holding exactly the payload bytes present and then stops, because the cursor
  has moved past the end of the buffer. In both cases the run ends normally: nothing is
  raised.\<close>

theorem buffered_truncated_tail:
  assumes "list_all valid_frame fs"
  shows "(length tail < 8 \<longrightarrow>
            multiplexed_buffer_loop (encode_frames fs @ tail) 0 =
              multiplexed_buffer_loop (encode_frames fs) 0 \<and>
            join (multiplexed_buffer_loop (encode_frames fs @ tail) 0) =
              Inr (concat (map payload fs))) \<and>
         (length hdr = 8 \<and> length part < be_uint (take 4 (drop 4 hdr)) \<longrightarrow>
            multiplexed_buffer_loop (encode_frames fs @ hdr @ part) 0 =
              yields (map payload fs @ [part]) Stop \<and>
            join (multiplexed_buffer_loop (encode_frames fs @ hdr @ part) 0) =
              Inr (concat (map payload fs) @ part))"
proof (intro conjI impI)
  assume t: "length tail < 8"
  from buffer_loop_frames[OF assms, of "[]" tail]
    buffer_loop_short_tail[OF t, of "encode_frames fs"]
  have a: "multiplexed_buffer_loop (encode_frames fs @ tail) 0 = yields (map payload fs) Stop"
    by simp
  with buffer_loop_encoded[OF assms]
  show "multiplexed_buffer_loop (encode_frames fs @ tail) 0 =
          multiplexed_buffer_loop (encode_frames fs) 0" by simp
  from a show "join (multiplexed_buffer_loop (encode_frames fs @ tail) 0) =
      Inr (concat (map payload fs))"
    by (simp add: join_def collect_yields)
next
  assume h: "length hdr = 8 \<and> length part < be_uint (take 4 (drop 4 hdr))"
  then have "multiplexed_buffer_loop (encode_frames fs @ hdr @ part)
      (length (encode_frames fs)) = Yield part Stop"
    by (intro buffer_loop_partial_payload conjunct1[OF h] conjunct2[OF h])
  with buffer_loop_frames[OF assms, of "[]" "hdr @ part"]
  show b: "multiplexed_buffer_loop (encode_frames fs @ hdr @ part) 0 =
      yields (map payload fs @ [part]) Stop"
    by (simp add: yields_append)
  show "join (multiplexed_buffer_loop (encode_frames fs @ hdr @ part) 0) =
      Inr (concat (map payload fs) @ part)"
    unfolding b by (simp add: join_def collect_yields)
qed

text \<open>After the frame (tag 1, \<open>ab\<close>): three bytes of a header change nothing, and a header
  declaring 5 bytes followed by \<open>cd\<close> contributes \<open>cd\<close>.\<close>

theorem buffered_truncated_tail_witness:
  "list_all valid_frame [\<lparr>stream_type = 1, reserved = (0, 0, 0), payload = [97, 98]\<rparr>] \<and>
   length [1, 0, 0 :: byte] < 8 \<and>
   join (multiplexed_buffer_loop ([1, 0, 0, 0, 0, 0, 0, 2, 97, 98] @ [1, 0, 0]) 0) =
     Inr [97, 98] \<and>
   length [2, 0, 0, 0, 0, 0, 0, 5 :: byte] = 8 \<and>
   length [99, 100 :: byte] < be_uint (take 4 (drop 4 [2, 0, 0, 0, 0, 0, 0, 5])) \<and>
   join (multiplexed_buffer_loop
     ([1, 0, 0, 0, 0, 0, 0, 2, 97, 98] @ [2, 0, 0, 0, 0, 0, 0, 5] @ [99, 100]) 0) =
     Inr [97, 98, 99, 100]"
proof -
  let ?fs = "[\<lparr>stream_type = 1, reserved = (0, 0, 0), payload = [97, 98 :: byte]\<rparr>]"
  have v: "list_all valid_frame ?fs" by (simp add: valid_frame_def)
  have e: "encode_frames ?fs = [1, 0, 0, 0, 0, 0, 0, 2, 97, 98]"
    by (simp add: encode_frames_def encode_frame_def frame_header_def encode_u32_def)
  have p1: "length [1, 0, 0 :: byte] < 8" by simp
  have p2: "length [2, 0, 0, 0, 0, 0, 0, 5 :: byte] = 8 \<and>
      length [99, 100 :: byte] < be_uint (take 4 (drop 4 [2, 0, 0, 0, 0, 0, 0, 5]))"
    by (simp add: be_uint_def)
  note t = buffered_truncated_tail[OF v, of "[1, 0, 0]" "[2, 0, 0, 0, 0, 0, 0, 5]" "[99, 100]"]
  from t[THEN conjunct1, THEN mp, OF p1, THEN conjunct2]
  have a: "join (multiplexed_buffer_loop (encode_frames ?fs @ [1, 0, 0]) 0) = Inr [97, 98]"
    by simp
  from t[THEN conjunct2, THEN mp, OF p2, THEN conjunct2]
  have b: "join (multiplexed_buffer_loop
      (encode_frames ?fs @ [2, 0, 0, 0, 0, 0, 0, 5] @ [99, 100]) 0) = Inr [97, 98, 99, 100]"
    by simp
  from v p1 p2 a b show ?thesis unfolding e by simp
qed

section \<open>The strategy of attach\<close>

text \<open>C5, as amended. For every version, \<open>attach\<close> chooses as follows. Below version 1.6 it
  parses no frames and does not go through \<open>_stream_helper\<close>: for a streaming request it
  returns a generator that checks the status and then yields the non-empty lines of the
  response, and otherwise it returns the raw body bytes after the status check. From version 1.6
  on it returns the generator of the live demultiplexer for a streaming request and the joined
  chunks of the buffered demultiplexer otherwise. A version of two components is below 1.6
  exactly when its major number is 0, or is 1 with a minor number under 6.\<close>

theorem attach_strategy:
  "attach version stream r =
     (if compare_version [1, 6] version < 0
      then (if stream
            then Generator
                   (if http_error r then Raise APIError
                    else yields (map Text (filter (\<lambda>line. line \<noteq> []) (iter_lines r))) Stop)
            else Returned (if http_error r then Inl APIError else Inr (Bytes (content r))))
      else (if stream
            then Generator (map_gen Bytes (fst (multiplexed_response_stream_helper r)))
            else Returned (map_sum id Bytes (join (multiplexed_buffer_helper r))))) \<and>
   (compare_version [1, 6] [major, minor] < 0) = (major < 1 \<or> major = 1 \<and> minor < 6)"
proof -
  have y: "map_gen f (yields xs Stop) = yields (map f xs) Stop"
    for f :: "string \<Rightarrow> pyval" and xs
    by (induction xs) simp_all
  show ?thesis
    by (auto simp: attach_def stream_result_def result_binary_def raise_for_status_def y)
qed

text \<open>The claim as first stated has \<open>attach\<close> use the chunked raw reader below version
  1.6. On a plain response with the body \<open>a\<close>, newline, \<open>b\<close> at version 1.5, \<open>attach\<close> yields
  the two lines when streaming and returns the three bytes otherwise, while the chunked raw
  reader yields the whole text as one element.\<close>

theorem attach_chunked_raw_reader_counterexample:
  "attach [1, 5] True
     \<lparr>http_error = False, chunked = False, content = [97, 10, 98],
      text' = [CHR ''a'', CHR 0x0A, CHR ''b''], iter_lines = [''a'', ''b''],
      raw = \<lparr>current = [], pending = [], closed = True, timeout = Some 60, calls = []\<rparr>\<rparr> =
     Generator (Yield (Text ''a'') (Yield (Text ''b'') Stop)) \<and>
   attach [1, 5] False
     \<lparr>http_error = False, chunked = False, content = [97, 10, 98],
      text' = [CHR ''a'', CHR 0x0A, CHR ''b''], iter_lines = [''a'', ''b''],
      raw = \<lparr>current = [], pending = [], closed = True, timeout = Some 60, calls = []\<rparr>\<rparr> =
     Returned (Inr (Bytes [97, 10, 98])) \<and>
   Generator (fst (stream_helper
     \<lparr>http_error = False, chunked = False, content = [97, 10, 98],
      text' = [CHR ''a'', CHR 0x0A, CHR ''b''], iter_lines = [''a'', ''b''],
      raw = \<lparr>current = [], pending = [], closed = True, timeout = Some 60, calls = []\<rparr>\<rparr>)) =
     Generator (Yield (Text [CHR ''a'', CHR 0x0A, CHR ''b'']) Stop) \<and>
   attach [1, 5] True
     \<lparr>http_error = False, chunked = False, content = [97, 10, 98],
      text' = [CHR ''a'', CHR 0x0A, CHR ''b''], iter_lines = [''a'', ''b''],
      raw = \<lparr>current = [], pending = [], closed = True, timeout = Some 60, calls = []\<rparr>\<rparr> \<noteq>
   Generator (fst (stream_helper
     \<lparr>http_error = False, chunked = False, content = [97, 10, 98],
      text' = [CHR ''a'', CHR 0x0A, CHR ''b''], iter_lines = [''a'', ''b''],
      raw = \<lparr>current = [], pending = [], closed = True, timeout = Some 60, calls = []\<rparr>\<rparr>)) \<and>
   attach [1, 5] False
     \<lparr>http_error = False, chunked = False, content = [97, 10, 98],
      text' = [CHR ''a'', CHR 0x0A, CHR ''b''], iter_lines = [''a'', ''b''],
      raw = \<lparr>current = [], pending = [], closed = True, timeout = Some 60, calls = []\<rparr>\<rparr> \<noteq>
   Generator (fst (stream_helper
     \<lparr>http_error = False, chunked = False, content = [97, 10, 98],
      text' = [CHR ''a'', CHR 0x0A, CHR ''b''], iter_lines = [''a'', ''b''],
      raw = \<lparr>current = [], pending = [], closed = True, timeout = Some 60, calls = []\<rparr>\<rparr>))"
  by (simp add: attach_def stream_result_def result_binary_def result_text_def
      raise_for_status_def stream_helper_def)

section \<open>The read timeout\<close>

text \<open>C6, as amended. When the status check of a streaming response passes, the live
  demultiplexer disables the read timeout of the connection exactly once, as its first call on
  the connection: the calls it makes are \<open>settimeout(None)\<close>, then the read of the first header,
  then further reads only, and the timeout is still disabled at the end. When the status check
  fails it raises the API error before it reaches \<open>settimeout\<close>: no call of \<open>settimeout\<close> is
  added to those made before, and the timeout keeps its value.\<close>

theorem live_timeout_disabled_once:
  "(if http_error r
    then fst (multiplexed_response_stream_helper r) = Raise APIError \<and>
         timeout (snd (multiplexed_response_stream_helper r)) = timeout (raw r) \<and>
         filter is_settimeout (calls (snd (multiplexed_response_stream_helper r))) =
           filter is_settimeout (calls (raw r))
    else timeout (snd (multiplexed_response_stream_helper r)) = None \<and>
         (\<exists>ns. calls (snd (multiplexed_response_stream_helper r)) =
            calls (raw r) @ SetTimeout None # Read 8 # map Read ns))"
proof (cases "http_error r")
  case True
  then have h: "multiplexed_response_stream_helper r = (Raise APIError, read_body (raw r))"
    by (simp add: multiplexed_response_stream_helper_def get_raw_response_socket_def
        raise_for_status_def)
  have "timeout (read_body t) = timeout t"
    "filter is_settimeout (calls (read_body t)) = filter is_settimeout (calls t)" for t
    by (simp_all add: read_body_def)
  with True show ?thesis unfolding h by simp
next
  case False
  then have h: "multiplexed_response_stream_helper r =
      multiplexed_response_stream_loop (settimeout None (raw r))"
    by (simp add: multiplexed_response_stream_helper_def get_raw_response_socket_def
        raise_for_status_def)
  from live_loop_calls[of "settimeout None (raw r)"] False show ?thesis
    unfolding h by (auto simp: settimeout_def)
qed

text \<open>The claim as first stated covers every streaming response. A response with an error
  status, its body still on the connection, makes the helper raise before it reaches
  \<open>settimeout\<close>: the timeout of 60 seconds stays and \<open>settimeout\<close> is never called.\<close>

theorem live_timeout_error_status_counterexample:
  "fst (multiplexed_response_stream_helper
     \<lparr>http_error = True, chunked = False, content = [110, 111], text' = ''no'',
      iter_lines = [''no''],
      raw = \<lparr>current = [], pending = [[110, 111]], closed = False, timeout = Some 60,
             calls = []\<rparr>\<rparr>) = Raise APIError \<and>
   timeout (snd (multiplexed_response_stream_helper
     \<lparr>http_error = True, chunked = False, content = [110, 111], text' = ''no'',
      iter_lines = [''no''],
      raw = \<lparr>current = [], pending = [[110, 111]], closed = False, timeout = Some 60,
             calls = []\<rparr>\<rparr>)) = Some 60 \<and>
   filter is_settimeout (calls (snd (multiplexed_response_stream_helper
     \<lparr>http_error = True, chunked = False, content = [110, 111], text' = ''no'',
      iter_lines = [''no''],
      raw = \<lparr>current = [], pending = [[110, 111]], closed = False, timeout = Some 60,
             calls = []\<rparr>\<rparr>))) = []"
  by (simp add: multiplexed_response_stream_helper_def get_raw_response_socket_def
      raise_for_status_def read_body_def)

section \<open>The raw reader on a response that is not chunked\<close>

text \<open>C7, as amended. For a response that is not chunked-transfer-encoded, the chunked raw
  reader yields exactly one element, the body of the response as text, when the status check
  passes; when the status check fails it yields nothing and raises the API error.\<close>

theorem stream_helper_not_chunked:
  assumes "\<not> chunked r"
  shows "fst (stream_helper r) =
     (if http_error r then Raise APIError else Yield (Text (text' r)) Stop)"
  using assms by (simp add: stream_helper_def result_text_def raise_for_status_def)

text \<open>A streamed response with status 200 whose body \<open>OK\<close> is still on the connection.\<close>

theorem stream_helper_not_chunked_witness:
  "\<not> chunked
     \<lparr>http_error = False, chunked = False, content = [79, 75], text' = ''OK'',
      iter_lines = [''OK''],
      raw = \<lparr>current = [], pending = [[79, 75]], closed = False, timeout = Some 60,
             calls = []\<rparr>\<rparr> \<and>
   fst (stream_helper
     \<lparr>http_error = False, chunked = False, content = [79, 75], text' = ''OK'',
      iter_lines = [''OK''],
      raw = \<lparr>current = [], pending = [[79, 75]], closed = False, timeout = Some 60,
             calls = []\<rparr>\<rparr>) =
   Yield (Text ''OK'') Stop"
  using stream_helper_not_chunked[of
     "\<lparr>http_error = False, chunked = False, content = [79, 75], text' = ''OK'',
       iter_lines = [''OK''],
       raw = \<lparr>current = [], pending = [[79, 75]], closed = False, timeout = Some 60,
              calls = []\<rparr>\<rparr>"]
  by simp

text \<open>The claim as first stated promises one element for every response that is not
  chunked. A streamed error response with the body \<open>no\<close> yields none: the generator
  raises.\<close>

theorem stream_helper_error_body_counterexample:
  "\<not> chunked
     \<lparr>http_error = True, chunked = False, content = [110, 111], text' = ''no'',
      iter_lines = [''no''],
      raw = \<lparr>current = [], pending = [[110, 111]], closed = False, timeout = Some 60,
             calls = []\<rparr>\<rparr> \<and>
   fst (stream_helper
     \<lparr>http_error = True, chunked = False, content = [110, 111], text' = ''no'',
      iter_lines = [''no''],
      raw = \<lparr>current = [], pending = [[110, 111]], closed = False, timeout = Some 60,
             calls = []\<rparr>\<rparr>) =
   Raise APIError"
  by (simp add: stream_helper_def result_text_def raise_for_status_def)

section \<open>The channel tag\<close>

text \<open>C8, as amended. Both demultiplexers read the channel tag of a frame and drop it: what
  they yield depends on the payloads only. Two sequences of valid frames with the same payloads
  give the same chunks from the buffered demultiplexer, and the same chunks from the live one,
  whatever their tags and reserved bytes.\<close>

theorem channel_tag_discarded:
  assumes "list_all valid_frame fs" and "map payload gs = map payload fs"
    and "stream_bytes t = encode_frames fs" and "stream_bytes t' = encode_frames gs"
  shows "multiplexed_buffer_loop (encode_frames gs) 0 =
           multiplexed_buffer_loop (encode_frames fs) 0 \<and>
         fst (multiplexed_response_stream_loop t') = fst (multiplexed_response_stream_loop t)"
proof -
  from assms(1,2) have vg: "list_all valid_frame gs"
    by (simp add: valid_frames_payloads)
  from buffer_loop_encoded[OF assms(1)] buffer_loop_encoded[OF vg]
    live_loop_encoded[OF assms(1,3)] live_loop_encoded[OF vg assms(4)] assms(2)
  show ?thesis by simp
qed

theorem channel_tag_discarded_witness:
  "list_all valid_frame [\<lparr>stream_type = 1, reserved = (0, 0, 0), payload = [97]\<rparr>] \<and>
   map payload [\<lparr>stream_type = 2, reserved = (0, 0, 0), payload = [97 :: byte]\<rparr>] =
     map payload [\<lparr>stream_type = 1, reserved = (0, 0, 0), payload = [97]\<rparr>] \<and>
   multiplexed_buffer_loop [2, 0, 0, 0, 0, 0, 0, 1, 97] 0 =
     multiplexed_buffer_loop [1, 0, 0, 0, 0, 0, 0, 1, 97] 0 \<and>
   fst (multiplexed_response_stream_loop
     \<lparr>current = [], pending = [[2, 0, 0, 0, 0, 0, 0, 1, 97]],
      closed = False, timeout = None, calls = []\<rparr>) =
   fst (multiplexed_response_stream_loop
     \<lparr>current = [], pending = [[1, 0, 0, 0, 0, 0, 0, 1, 97]],
      closed = False, timeout = None, calls = []\<rparr>)"
proof -
  let ?fs = "[\<lparr>stream_type = 1, reserved = (0, 0, 0), payload = [97 :: byte]\<rparr>]"
  let ?gs = "[\<lparr>stream_type = 2, reserved = (0, 0, 0), payload = [97 :: byte]\<rparr>]"
  let ?t = "\<lparr>current = [], pending = [[1, 0, 0, 0, 0, 0, 0, 1, 97 :: byte]],
      closed = False, timeout = None, calls = []\<rparr>"
  let ?t' = "\<lparr>current = [], pending = [[2, 0, 0, 0, 0, 0, 0, 1, 97 :: byte]],
      closed = False, timeout = None, calls = []\<rparr>"
  have v: "list_all valid_frame ?fs" by (simp add: valid_frame_def)
  have m: "map payload ?gs = map payload ?fs" by simp
  have e: "encode_frames ?fs = [1, 0, 0, 0, 0, 0, 0, 1, 97]"
    "encode_frames ?gs = [2, 0, 0, 0, 0, 0, 0, 1, 97]"
    by (simp_all add: encode_frames_def encode_frame_def frame_header_def encode_u32_def)
  have s: "stream_bytes ?t = encode_frames ?fs" "stream_bytes ?t' = encode_frames ?gs"
    unfolding e by (simp_all add: stream_bytes_def)
  from channel_tag_discarded[OF v m s] v show ?thesis unfolding e by simp
qed

text \<open>The claim as first stated has the output retain each frame's tag. A frame with tag 1
  and a frame with tag 2 that carry the same payload give the same output, the payload alone,
  from both demultiplexers.\<close>

theorem channel_tag_retained_counterexample:
  "stream_type \<lparr>stream_type = 1, reserved = (0, 0, 0), payload = [97 :: byte]\<rparr> \<noteq>
   stream_type \<lparr>stream_type = 2, reserved = (0, 0, 0), payload = [97 :: byte]\<rparr> \<and>
   encode_frames [\<lparr>stream_type = 1, reserved = (0, 0, 0), payload = [97]\<rparr>] =
     [1, 0, 0, 0, 0, 0, 0, 1, 97] \<and>
   encode_frames [\<lparr>stream_type = 2, reserved = (0, 0, 0), payload = [97]\<rparr>] =
     [2, 0, 0, 0, 0, 0, 0, 1, 97] \<and>
   multiplexed_buffer_loop [1, 0, 0, 0, 0, 0, 0, 1, 97] 0 = Yield [97] Stop \<and>
   multiplexed_buffer_loop [2, 0, 0, 0, 0, 0, 0, 1, 97] 0 = Yield [97] Stop \<and>
   fst (multiplexed_response_stream_loop
     \<lparr>current = [], pending = [[1, 0, 0, 0, 0, 0, 0, 1, 97]],
      closed = False, timeout = None, calls = []\<rparr>) = Yield [97] Stop \<and>
   fst (multiplexed_response_stream_loop
     \<lparr>current = [], pending = [[2, 0, 0, 0, 0, 0, 0, 1, 97]],
      closed = False, timeout = None, calls = []\<rparr>) = Yield [97] Stop"
proof -
  have a: "encode_frames [\<lparr>stream_type = 1, reserved = (0, 0, 0), payload = [97]\<rparr>] =
     [1, 0, 0, 0, 0, 0, 0, 1, 97]"
    "encode_frames [\<lparr>stream_type = 2, reserved = (0, 0, 0), payload = [97]\<rparr>] =
     [2, 0, 0, 0, 0, 0, 0, 1, 97]"
    by (simp_all add: encode_frames_def encode_frame_def frame_header_def encode_u32_def)
  have b: "multiplexed_buffer_loop [1, 0, 0, 0, 0, 0, 0, 1, 97] 0 = Yield [97] Stop"
    "multiplexed_buffer_loop [2, 0, 0, 0, 0, 0, 0, 1, 97] 0 = Yield [97] Stop"
    by code_simp+
  have c: "fst (multiplexed_response_stream_loop
     \<lparr>current = [], pending = [[1, 0, 0, 0, 0, 0, 0, 1, 97]],
      closed = False, timeout = None, calls = []\<rparr>) = Yield [97] Stop"
    "fst (multiplexed_response_stream_loop
     \<lparr>current = [], pending = [[2, 0, 0, 0, 0, 0, 0, 1, 97]],
      closed = False, timeout = None, calls = []\<rparr>) = Yield [97] Stop"
    by code_simp+
  from a b c show ?thesis by simp
qed

section \<open>A zero-length frame in the buffered demultiplexer\<close>

text \<open>C9. In a buffer of valid frames with a zero-length frame in the middle, the buffered
  demultiplexer yields the empty chunk for that frame and goes on with the frames after it, so
  the joined result holds the later payloads too; the live demultiplexer, given the same bytes,
  stops at the first zero-length frame.\<close>

theorem zero_length_frame_buffered_continues:
  assumes "list_all valid_frame (pre @ z # post)" and "payload z = []"
    and "stream_bytes t = encode_frames (pre @ z # post)"
  shows "multiplexed_buffer_loop (encode_frames (pre @ z # post)) 0 =
           yields (map payload pre @ [] # map payload post) Stop \<and>
         join (multiplexed_buffer_loop (encode_frames (pre @ z # post)) 0) =
           Inr (concat (map payload pre) @ concat (map payload post)) \<and>
         fst (multiplexed_response_stream_loop t) =
           yields (takeWhile (\<lambda>p. p \<noteq> []) (map payload pre)) Stop"
proof -
  have b: "multiplexed_buffer_loop (encode_frames (pre @ z # post)) 0 =
           yields (map payload pre @ [] # map payload post) Stop"
    using buffer_loop_encoded[OF assms(1)] assms(2) by simp
  have tw: "takeWhile (\<lambda>p. p \<noteq> []) (map payload (pre @ z # post)) =
            takeWhile (\<lambda>p. p \<noteq> []) (map payload pre)"
    using assms(2) by (induction pre) simp_all
  show ?thesis
    using live_loop_encoded[OF assms(1,3)] unfolding b tw
    by (simp add: join_def collect_yields)
qed

theorem zero_length_frame_buffered_continues_witness:
  "list_all valid_frame
     ([\<lparr>stream_type = 1, reserved = (0, 0, 0), payload = [97, 98]\<rparr>] @
      \<lparr>stream_type = 1, reserved = (0, 0, 0), payload = []\<rparr> #
      [\<lparr>stream_type = 2, reserved = (0, 0, 0), payload = [99]\<rparr>]) \<and>
   multiplexed_buffer_loop
     [1, 0, 0, 0, 0, 0, 0, 2, 97, 98, 1, 0, 0, 0, 0, 0, 0, 0, 2, 0, 0, 0, 0, 0, 0, 1, 99] 0 =
     Yield [97, 98] (Yield [] (Yield [99] Stop)) \<and>
   join (multiplexed_buffer_loop
     [1, 0, 0, 0, 0, 0, 0, 2, 97, 98, 1, 0, 0, 0, 0, 0, 0, 0, 2, 0, 0, 0, 0, 0, 0, 1, 99] 0) =
     Inr [97, 98, 99] \<and>
   fst (multiplexed_response_stream_loop
     \<lparr>current = [],
      pending = [[1, 0, 0, 0, 0, 0, 0, 2, 97, 98, 1, 0, 0, 0, 0, 0, 0, 0,
                  2, 0, 0, 0, 0, 0, 0, 1, 99]],
      closed = False, timeout = None, calls = []\<rparr>) = Yield [97, 98] Stop"
proof -
  let ?pre = "[\<lparr>stream_type = 1, reserved = (0, 0, 0), payload = [97, 98 :: byte]\<rparr>]"
  let ?z = "\<lparr>stream_type = 1, reserved = (0, 0, 0), payload = [] :: bytes\<rparr>"
  let ?post = "[\<lparr>stream_type = 2, reserved = (0, 0, 0), payload = [99 :: byte]\<rparr>]"
  let ?t = "\<lparr>current = [],
      pending = [[1, 0, 0, 0, 0, 0, 0, 2, 97, 98, 1, 0, 0, 0, 0, 0, 0, 0,
                  2, 0, 0, 0, 0, 0, 0, 1, 99 :: byte]],
      closed = False, timeout = None, calls = []\<rparr>"
  have v: "list_all valid_frame (?pre @ ?z # ?post)" by (simp add: valid_frame_def)
  have p: "payload ?z = []" by simp
  have e: "encode_frames (?pre @ ?z # ?post) =
      [1, 0, 0, 0, 0, 0, 0, 2, 97, 98, 1, 0, 0, 0, 0, 0, 0, 0, 2, 0, 0, 0, 0, 0, 0, 1, 99]"
    by (simp add: encode_frames_def encode_frame_def frame_header_def encode_u32_def)
  have s: "stream_bytes ?t = encode_frames (?pre @ ?z # ?post)" unfolding e
    by (simp add: stream_bytes_def)
  from zero_length_frame_buffered_continues[OF v p s] v show ?thesis unfolding e
    by (simp add: join_def)
qed

section \<open>Termination of the buffered demultiplexer\<close>

text \<open>C10. The buffered demultiplexer terminates on every buffer, whatever the length fields
  say: each pass through the loop body either stops or moves the cursor forward by at least 8
  bytes, so \<open>len(buf) div 8 + 1\<close> passes always suffice to reach the end of the run.\<close>

theorem buffered_terminates_bounded:
  "multiplexed_buffer_fuel (length buf div 8 + 1) buf 0 = Some (multiplexed_buffer_loop buf 0)"
  by (rule buffer_fuel_enough) simp

end
